theory Spec2Isabelle
  imports Main "HOL-Library.Product_Lexorder" "HOL-Library.Multiset"
begin

section \<open>Values of the poker program\<close>

text \<open>
  A scrubbed card is the Python tuple \<open>(rank, suit)\<close> of two unbounded integers; tuples
  are compared lexicographically, which is the order \<open>HOL-Library.Product_Lexorder\<close>
  puts on pairs. A hand is a Python list of such tuples.

  A detector returns \<open>None\<close>, a tuple \<open>(category, rank)\<close>, or (one path of
  \<open>straight_flush\<close>) the bare integer \<open>ROYAL_FL\<close>; the two shapes of a non-\<open>None\<close>
  result are the constructors of \<open>hrank\<close>.
\<close>

type_synonym card = "int \<times> int"
type_synonym hand = "card list"

datatype py_error = KeyError | IndexError | ValueError | TypeError

datatype hrank = Tup int int | Bare int

definition HIGH_CARD :: int where "HIGH_CARD = 0"
definition ONE_PAIR :: int where "ONE_PAIR = 1"
definition TWO_PAIR :: int where "TWO_PAIR = 2"
definition THREE_OK :: int where "THREE_OK = 3"
definition STRAIGHT :: int where "STRAIGHT = 4"
definition FLUSH :: int where "FLUSH = 5"
definition FULL_H :: int where "FULL_H = 6"
definition FOUR_OK :: int where "FOUR_OK = 7"
definition STRAIGHT_FL :: int where "STRAIGHT_FL = 8"
definition ROYAL_FL :: int where "ROYAL_FL = 9"

text \<open>The two dictionaries, in the order the source writes their entries.\<close>

definition card_ranks :: "string \<rightharpoonup> int" where
  "card_ranks = map_of
     [(''A'', 14), (''K'', 13), (''Q'', 12), (''J'', 11), (''T'', 10), (''9'', 9),
      (''8'', 8), (''7'', 7), (''6'', 6), (''5'', 5), (''4'', 4), (''3'', 3),
      (''2'', 2), (''1'', 1)]"

definition LOW_ACE :: int where "LOW_ACE = 0"

definition suits :: "string \<rightharpoonup> int" where
  "suits = map_of [(''C'', 0), (''S'', 1), (''D'', 2), (''H'', 3)]"

section \<open>scrub_hand\<close>

text \<open>
  \<open>sorted((card_ranks[x[0:-1]], suits[x[-1]]) for x in hand)\<close>.
  \<open>scrub_card\<close> is the generator's element expression: \<open>x[0:-1]\<close> is the token without
  its last character, looked up first (a missing key raises \<open>KeyError\<close>); then \<open>x[-1]\<close>
  (an \<open>IndexError\<close> on the empty string) is looked up in \<open>suits\<close>. \<open>scrub_gen\<close> consumes
  the generator from the left and stops at the first exception.
\<close>

definition scrub_card :: "string \<Rightarrow> py_error + card" where
  "scrub_card x =
     (case card_ranks (butlast x) of
        None \<Rightarrow> Inl KeyError
      | Some r \<Rightarrow>
          (if x = [] then Inl IndexError
           else (case suits [last x] of
                   None \<Rightarrow> Inl KeyError
                 | Some s \<Rightarrow> Inr (r, s))))"

fun scrub_gen :: "string list \<Rightarrow> py_error + hand" where
  "scrub_gen [] = Inr []"
| "scrub_gen (x # xs) =
     (case scrub_card x of
        Inl e \<Rightarrow> Inl e
      | Inr c \<Rightarrow> (case scrub_gen xs of Inl e \<Rightarrow> Inl e | Inr cs \<Rightarrow> Inr (c # cs)))"

definition scrub_hand :: "string list \<Rightarrow> py_error + hand" where
  "scrub_hand hand = (case scrub_gen hand of Inl e \<Rightarrow> Inl e | Inr cs \<Rightarrow> Inr (sort cs))"

section \<open>low_aces\<close>

text \<open>
  \<open>low_aces\<close> copies its argument and mutates the copy, and \<open>hand_rank\<close> goes on reading
  the original afterwards, so lists live in an explicit store: a store is the sequence of
  list objects allocated so far and a reference is an index into it. The tuples inside a
  list are immutable and are kept as values.
\<close>

type_synonym ref = nat
type_synonym store = "hand list"

definition new_list :: "store \<Rightarrow> hand \<Rightarrow> store \<times> ref" where
  "new_list st cs = (st @ [cs], length st)"

definition deepcopy :: "store \<Rightarrow> ref \<Rightarrow> store \<times> ref" where
  "deepcopy st a = new_list st (st ! a)"

text \<open>
  \<open>bisect.insort\<close> is \<open>insort_right\<close>: a binary search for the insertion point
  (\<open>while lo < hi: mid = (lo + hi) // 2; if x < a[mid]: hi = mid else: lo = mid + 1\<close>),
  then \<open>a.insert(lo, x)\<close>.
\<close>

function bisect_right :: "'a::linorder list \<Rightarrow> 'a \<Rightarrow> nat \<Rightarrow> nat \<Rightarrow> nat" where
  "bisect_right a x lo hi =
     (if lo < hi then
        (let mid = (lo + hi) div 2
         in if x < a ! mid then bisect_right a x lo mid else bisect_right a x (mid + 1) hi)
      else lo)"
  by pat_completeness auto
termination
  by (relation "measure (\<lambda>(a, x, lo, hi). hi - lo)") auto

declare bisect_right.simps [simp del]

definition insort_right :: "'a::linorder list \<Rightarrow> 'a \<Rightarrow> 'a list" where
  "insort_right a x = (let lo = bisect_right a x 0 (length a) in take lo a @ x # drop lo a)"

text \<open>
  The loop \<open>for i, j in reversed(hand)\<close> of \<open>low_aces\<close>: \<open>cs\<close> is what the iterator has
  still to yield, \<open>c\<close> the reference \<open>hand_low_aces\<close>. Only the list at \<open>c\<close> is written.
\<close>

fun low_aces_loop :: "card list \<Rightarrow> ref \<Rightarrow> store \<Rightarrow> store" where
  "low_aces_loop [] c st = st"
| "low_aces_loop ((i, j) # cs) c st =
     (if i < the (card_ranks ''A'') then st
      else if i > the (card_ranks ''A'') then low_aces_loop cs c st
      else low_aces_loop cs c (st[c := insort_right (st ! c) (LOW_ACE, j)]))"

definition low_aces :: "store \<Rightarrow> ref \<Rightarrow> store \<times> ref" where
  "low_aces st hand =
     (let (st1, hand_low_aces) = deepcopy st hand
      in (low_aces_loop (rev (st1 ! hand)) hand_low_aces st1, hand_low_aces))"

section \<open>The category detectors\<close>

text \<open>
  Every detector scans \<open>reversed(hand)\<close>; its \<open>_loop\<close> function is the body of the
  \<open>for\<close> loop, the list argument being what the iterator has still to yield and the
  other arguments the loop's variables. A \<open>break\<close> with \<open>hand_rank\<close> set is a return
  of that value, and running out of cards returns the initial \<open>hand_rank = None\<close>.
  A two-element list \<open>[a, b]\<close> of the source that is either \<open>[None, None]\<close> or holds two
  integers is an optional pair.
\<close>

text \<open>
  \<open>streak[j]\<close> on the four-element list of \<open>straight_flush\<close> and \<open>flush\<close>: Python counts
  a negative index from the end and raises \<open>IndexError\<close> outside \<open>-4 .. 3\<close>.
\<close>

definition suit_index :: "int \<Rightarrow> nat option" where
  "suit_index j =
     (if 0 \<le> j \<and> j < 4 then Some (nat j)
      else if - 4 \<le> j \<and> j < 0 then Some (nat (j + 4))
      else None)"

fun straight_flush_loop ::
  "(int \<times> int) option list \<Rightarrow> card list \<Rightarrow> py_error + hrank option" where
  "straight_flush_loop streak [] = Inr None"
| "straight_flush_loop streak ((i, j) # cs) =
     (case suit_index j of
        None \<Rightarrow> Inl IndexError
      | Some k \<Rightarrow>
          (case streak ! k of
             None \<Rightarrow> straight_flush_loop (streak[k := Some (i, i)]) cs
           | Some (first, lst) \<Rightarrow>
               if lst > i + 1 then straight_flush_loop (streak[k := Some (i, i)]) cs
               else if lst = i + 1 then
                 (if first - i = 4 then Inr (Some (Tup STRAIGHT_FL first))
                  else straight_flush_loop (streak[k := Some (first, i)]) cs)
               else straight_flush_loop streak cs))"

definition straight_flush :: "hand \<Rightarrow> py_error + hrank option" where
  "straight_flush hand =
     (case straight_flush_loop (replicate 4 None) (rev hand) of
        Inl e \<Rightarrow> Inl e
      | Inr None \<Rightarrow> Inr None
      | Inr (Some (Bare n)) \<Rightarrow> Inr (Some (Bare n))
      | Inr (Some (Tup c t)) \<Rightarrow>
          if t = the (card_ranks ''A'') then Inr (Some (Bare ROYAL_FL))
          else Inr (Some (Tup c t)))"

definition kind_to_rank :: "int \<rightharpoonup> int" where
  "kind_to_rank = map_of [(2, ONE_PAIR), (3, THREE_OK), (4, FOUR_OK)]"

fun of_kind_loop :: "int \<Rightarrow> (int \<times> int) option \<Rightarrow> card list \<Rightarrow> py_error + hrank option" where
  "of_kind_loop num streak [] = Inr None"
| "of_kind_loop num streak ((i, j) # cs) =
     (case streak of
        None \<Rightarrow> of_kind_loop num (Some (i, 1)) cs
      | Some (r, n) \<Rightarrow>
          if r \<noteq> i then of_kind_loop num (Some (i, 1)) cs
          else if n + 1 = num then
            (case kind_to_rank num of
               None \<Rightarrow> Inl KeyError
             | Some k \<Rightarrow> Inr (Some (Tup k i)))
          else of_kind_loop num (Some (r, n + 1)) cs)"

definition of_kind :: "hand \<Rightarrow> int \<Rightarrow> py_error + hrank option" where
  "of_kind hand num = of_kind_loop num None (rev hand)"

text \<open>
  \<open>full_house\<close>: \<open>s0\<close> and \<open>s1\<close> are \<open>streak[0]\<close> and \<open>streak[1]\<close>, each \<open>[rank, count]\<close>.
  After \<open>streak[0] = streak[1]\<close> the next statement rebinds \<open>streak[1]\<close> to a new list, so
  the two never share an object when a count is incremented.
\<close>

fun full_house_loop ::
  "(int \<times> int) option \<Rightarrow> (int \<times> int) option \<Rightarrow> card list \<Rightarrow> hrank option" where
  "full_house_loop s0 s1 [] = None"
| "full_house_loop s0 s1 ((i, j) # cs) =
     (case s0 of
        None \<Rightarrow> full_house_loop (Some (i, 1)) s1 cs
      | Some (r0, n0) \<Rightarrow>
          if r0 = i then
            (case s1 of
               None \<Rightarrow> full_house_loop (Some (r0, n0 + 1)) s1 cs
             | Some (r1, n1) \<Rightarrow>
                 if (n0 + 1 = 2 \<and> n1 = 3) \<or> (n0 + 1 = 3 \<and> n1 = 2)
                 then Some (Tup FULL_H r0)
                 else full_house_loop (Some (r0, n0 + 1)) s1 cs)
          else
            (case s1 of
               None \<Rightarrow> full_house_loop s0 (Some (i, 1)) cs
             | Some (r1, n1) \<Rightarrow>
                 if r1 \<noteq> i then full_house_loop s1 (Some (i, 1)) cs
                 else if (n0 = 2 \<and> n1 + 1 = 3) \<or> (n0 = 3 \<and> n1 + 1 = 2)
                 then Some (Tup FULL_H r0)
                 else full_house_loop s0 (Some (r1, n1 + 1)) cs))"

definition full_house :: "hand \<Rightarrow> hrank option" where
  "full_house hand = full_house_loop None None (rev hand)"

fun flush_loop :: "(int \<times> int) option list \<Rightarrow> card list \<Rightarrow> py_error + hrank option" where
  "flush_loop streak [] = Inr None"
| "flush_loop streak ((i, j) # cs) =
     (case suit_index j of
        None \<Rightarrow> Inl IndexError
      | Some k \<Rightarrow>
          (case streak ! k of
             None \<Rightarrow> flush_loop (streak[k := Some (i, 1)]) cs
           | Some (h, n) \<Rightarrow>
               if n + 1 = 5 then Inr (Some (Tup FLUSH h))
               else flush_loop (streak[k := Some (h, n + 1)]) cs))"

definition flush :: "hand \<Rightarrow> py_error + hrank option" where
  "flush hand = flush_loop (replicate 4 None) (rev hand)"

fun straight_loop :: "(int \<times> int) option \<Rightarrow> card list \<Rightarrow> hrank option" where
  "straight_loop streak [] = None"
| "straight_loop streak ((i, j) # cs) =
     (case streak of
        None \<Rightarrow> straight_loop (Some (i, i)) cs
      | Some (first, lst) \<Rightarrow>
          if lst > i + 1 then straight_loop (Some (i, i)) cs
          else if lst = i then straight_loop streak cs
          else if lst = i + 1 then
            (if first - i = 4 then Some (Tup STRAIGHT first)
             else straight_loop (Some (first, i)) cs)
          else straight_loop streak cs)"

definition straight :: "hand \<Rightarrow> hrank option" where
  "straight hand = straight_loop None (rev hand)"

fun two_pair_loop ::
  "(int \<times> int) option \<Rightarrow> (int \<times> int) option \<Rightarrow> card list \<Rightarrow> hrank option" where
  "two_pair_loop s0 s1 [] = None"
| "two_pair_loop s0 s1 ((i, j) # cs) =
     (case s0 of
        None \<Rightarrow> two_pair_loop (Some (i, 1)) s1 cs
      | Some (r0, n0) \<Rightarrow>
          if r0 = i then
            (case s1 of
               None \<Rightarrow> two_pair_loop (Some (r0, n0 + 1)) s1 cs
             | Some (r1, n1) \<Rightarrow>
                 if n0 + 1 = 2 \<and> n1 = 2 then Some (Tup FULL_H r0)
                 else two_pair_loop (Some (r0, n0 + 1)) s1 cs)
          else
            (case s1 of
               None \<Rightarrow> two_pair_loop s0 (Some (i, 1)) cs
             | Some (r1, n1) \<Rightarrow>
                 if r1 \<noteq> i then two_pair_loop s0 (Some (i, 1)) cs
                 else if n0 = 2 \<and> n1 + 1 = 2 then Some (Tup TWO_PAIR r0)
                 else two_pair_loop s0 (Some (r1, n1 + 1)) cs))"

definition two_pair :: "hand \<Rightarrow> hrank option" where
  "two_pair hand = two_pair_loop None None (rev hand)"

text \<open>\<open>high_card\<close> returns \<open>(0, hand[0][0])\<close> for a non-empty list and falls off its end,
  returning \<open>None\<close>, otherwise.\<close>

definition high_card :: "hand \<Rightarrow> hrank option" where
  "high_card hand = (case hand of [] \<Rightarrow> None | (i, j) # cs \<Rightarrow> Some (Tup 0 i))"

section \<open>hand_rank\<close>

text \<open>
  One statement \<open>if h_rank is None: h_rank = d\<close>: the detector call \<open>d\<close> matters only while
  \<open>h_rank\<close> is \<open>None\<close>, and an exception raised earlier propagates.
\<close>

definition if_none ::
  "py_error + hrank option \<Rightarrow> py_error + hrank option \<Rightarrow> py_error + hrank option" where
  "if_none h_rank d =
     (case h_rank of Inl e \<Rightarrow> Inl e | Inr None \<Rightarrow> d | Inr (Some r) \<Rightarrow> Inr (Some r))"

definition hand_rank :: "string list \<Rightarrow> py_error + hrank option" where
  "hand_rank hand =
     (case scrub_hand hand of
        Inl e \<Rightarrow> Inl e
      | Inr cs \<Rightarrow>
          (let (st1, hand_high_aces) = new_list [] cs;
               (st2, hand_both_aces) = low_aces st1 hand_high_aces;
               h_rank = Inr None;
               h_rank = if_none h_rank (straight_flush (st2 ! hand_both_aces));
               h_rank = if_none h_rank (of_kind (st2 ! hand_high_aces) 4);
               h_rank = if_none h_rank (Inr (full_house (st2 ! hand_high_aces)));
               h_rank = if_none h_rank (flush (st2 ! hand_high_aces));
               h_rank = if_none h_rank (Inr (straight (st2 ! hand_both_aces)));
               h_rank = if_none h_rank (of_kind (st2 ! hand_high_aces) 3);
               h_rank = if_none h_rank (Inr (two_pair (st2 ! hand_high_aces)));
               h_rank = if_none h_rank (of_kind (st2 ! hand_high_aces) 2);
               h_rank = if_none h_rank (Inr (high_card (st2 ! hand_high_aces)))
           in h_rank))"

section \<open>poker\<close>

text \<open>
  \<open>max(hands, key=hand_rank)\<close>. \<open>max\<close> raises \<open>ValueError\<close> on an empty sequence; otherwise
  it keeps the first item and its key and replaces them whenever a later item's key is
  greater (\<open>>\<close>), so the first of several maximal items is kept. Keys are compared as
  Python 3 compares them: two tuples lexicographically, two integers as integers, and
  every other pairing (a tuple with an integer, anything with \<open>None\<close>) raises \<open>TypeError\<close>.
\<close>

fun py_gt :: "hrank option \<Rightarrow> hrank option \<Rightarrow> py_error + bool" where
  "py_gt (Some (Tup c t)) (Some (Tup c' t')) = Inr ((c, t) > (c', t'))"
| "py_gt (Some (Bare n)) (Some (Bare n')) = Inr (n > n')"
| "py_gt _ _ = Inl TypeError"

fun max_loop ::
  "string list \<Rightarrow> hrank option \<Rightarrow> string list list \<Rightarrow> py_error + string list" where
  "max_loop maxitem maxval [] = Inr maxitem"
| "max_loop maxitem maxval (item # items) =
     (case hand_rank item of
        Inl e \<Rightarrow> Inl e
      | Inr val \<Rightarrow>
          (case py_gt val maxval of
             Inl e \<Rightarrow> Inl e
           | Inr b \<Rightarrow>
               if b then max_loop item val items else max_loop maxitem maxval items))"

definition poker :: "string list list \<Rightarrow> py_error + string list" where
  "poker hands =
     (case hands of
        [] \<Rightarrow> Inl ValueError
      | item # items \<Rightarrow>
          (case hand_rank item of
             Inl e \<Rightarrow> Inl e
           | Inr val \<Rightarrow> max_loop item val items))"

section \<open>Reference definitions\<close>

text \<open>
  The ace-duplicated hand as a value: what \<open>low_aces\<close> leaves at the reference it returns
  when it is given a store that holds only the hand.
\<close>

definition ace_duplicated :: "hand \<Rightarrow> hand" where
  "ace_duplicated cs = (let (st, r) = low_aces [cs] 0 in st ! r)"

text \<open>
  An ordered list of detector results tried from the left: the first result that is not
  \<open>None\<close> wins, and an exception met on the way propagates.
\<close>

fun first_non_none :: "(py_error + hrank option) list \<Rightarrow> py_error + hrank option" where
  "first_non_none [] = Inr None"
| "first_non_none (d # ds) =
     (case d of Inl e \<Rightarrow> Inl e | Inr None \<Rightarrow> first_non_none ds | Inr (Some r) \<Rightarrow> Inr (Some r))"

text \<open>How many cards of a hand have rank \<open>r\<close>.\<close>

definition rank_count :: "hand \<Rightarrow> int \<Rightarrow> nat" where
  "rank_count hand r = length (filter (\<lambda>c. fst c = r) hand)"

text \<open>
  Two ranks \<open>b < a\<close> of a hand that make a full house: the higher rank \<open>a\<close> occurs exactly
  three times and \<open>b\<close> at least twice, or \<open>a\<close> occurs exactly twice and \<open>b\<close> at least three
  times.
\<close>

definition full_house_pattern :: "hand \<Rightarrow> int \<Rightarrow> int \<Rightarrow> bool" where
  "full_house_pattern hand a b =
     (b < a \<and>
      ((rank_count hand a = 3 \<and> 2 \<le> rank_count hand b) \<or>
       (rank_count hand a = 2 \<and> 3 \<le> rank_count hand b)))"

text \<open>The first element of a list whose key is the greatest key of the list.\<close>

definition first_max :: "('a \<Rightarrow> 'k::linorder) \<Rightarrow> 'a list \<Rightarrow> 'a" where
  "first_max key xs = hd (filter (\<lambda>x. key x = Max (key ` set xs)) xs)"

section \<open>Facts about the tables\<close>

lemmas category_defs =
  HIGH_CARD_def ONE_PAIR_def TWO_PAIR_def THREE_OK_def STRAIGHT_def FLUSH_def
  FULL_H_def FOUR_OK_def STRAIGHT_FL_def ROYAL_FL_def

lemma card_ranks_A: "the (card_ranks ''A'') = 14"
  by (simp add: card_ranks_def)

section \<open>Binary insertion keeps a sorted list sorted\<close>

lemma bisect_right_bounds:
  "lo \<le> hi \<Longrightarrow> hi \<le> length a \<Longrightarrow>
   lo \<le> bisect_right a x lo hi \<and> bisect_right a x lo hi \<le> hi"
proof (induction a x lo hi rule: bisect_right.induct)
  case (1 a x lo hi)
  show ?case
  proof (cases "lo < hi")
    case False
    with "1.prems" show ?thesis by (simp add: bisect_right.simps)
  next
    case True
    let ?mid = "(lo + hi) div 2"
    have m: "lo \<le> ?mid" "?mid < hi" using True by auto
    show ?thesis
    proof (cases "x < a ! ?mid")
      case True
      have "lo \<le> bisect_right a x lo ?mid \<and> bisect_right a x lo ?mid \<le> ?mid"
        using "1.IH"(1)[OF \<open>lo < hi\<close> refl True] m "1.prems" by simp
      then show ?thesis using True \<open>lo < hi\<close> m
        by (subst (1 2) bisect_right.simps) (simp add: Let_def)
    next
      case False
      have "?mid + 1 \<le> bisect_right a x (?mid + 1) hi \<and> bisect_right a x (?mid + 1) hi \<le> hi"
        using "1.IH"(2)[OF \<open>lo < hi\<close> refl False] m "1.prems" by simp
      then show ?thesis using False \<open>lo < hi\<close> m
        by (subst (1 2) bisect_right.simps) (simp add: Let_def)
    qed
  qed
qed

lemma bisect_right_neighbours:
  "lo \<le> hi \<Longrightarrow> hi \<le> length a \<Longrightarrow>
   (\<forall>k < lo. a ! k \<le> x) \<Longrightarrow> (\<forall>k. hi \<le> k \<and> k < length a \<longrightarrow> x < a ! k) \<Longrightarrow> sorted a \<Longrightarrow>
   (\<forall>k < bisect_right a x lo hi. a ! k \<le> x) \<and>
   (\<forall>k. bisect_right a x lo hi \<le> k \<and> k < length a \<longrightarrow> x < a ! k)"
proof (induction a x lo hi rule: bisect_right.induct)
  case (1 a x lo hi)
  show ?case
  proof (cases "lo < hi")
    case False
    with "1.prems" have "lo = hi" by simp
    with "1.prems" show ?thesis by (simp add: bisect_right.simps)
  next
    case True
    let ?mid = "(lo + hi) div 2"
    have m: "lo \<le> ?mid" "?mid < hi" "?mid < length a" using True "1.prems" by auto
    show ?thesis
    proof (cases "x < a ! ?mid")
      case lt: True
      have up: "\<forall>k. ?mid \<le> k \<and> k < length a \<longrightarrow> x < a ! k"
      proof (intro allI impI)
        fix k assume k: "?mid \<le> k \<and> k < length a"
        then have "a ! ?mid \<le> a ! k" using \<open>sorted a\<close> by (simp add: sorted_iff_nth_mono)
        with lt show "x < a ! k" by simp
      qed
      have "(\<forall>k < bisect_right a x lo ?mid. a ! k \<le> x) \<and>
            (\<forall>k. bisect_right a x lo ?mid \<le> k \<and> k < length a \<longrightarrow> x < a ! k)"
        using "1.IH"(1)[OF True refl lt] m "1.prems" up by simp
      then show ?thesis using lt True
        by (subst (1 2) bisect_right.simps) (simp add: Let_def)
    next
      case ge: False
      have low: "\<forall>k < ?mid + 1. a ! k \<le> x"
      proof (intro allI impI)
        fix k assume k: "k < ?mid + 1"
        then have "a ! k \<le> a ! ?mid" using \<open>sorted a\<close> m by (simp add: sorted_iff_nth_mono)
        with ge show "a ! k \<le> x" by simp
      qed
      have "(\<forall>k < bisect_right a x (?mid + 1) hi. a ! k \<le> x) \<and>
            (\<forall>k. bisect_right a x (?mid + 1) hi \<le> k \<and> k < length a \<longrightarrow> x < a ! k)"
        using "1.IH"(2)[OF True refl ge] m "1.prems" low by simp
      then show ?thesis using ge True
        by (subst (1 2) bisect_right.simps) (simp add: Let_def)
    qed
  qed
qed

lemma mset_insort_right: "mset (insort_right a x) = add_mset x (mset a)"
proof -
  have "mset (take n a @ x # drop n a) = add_mset x (mset a)" for n
    by (metis append_take_drop_id mset.simps(2) mset_append union_mset_add_mset_right)
  then show ?thesis by (simp add: insort_right_def Let_def)
qed

lemma sorted_insort_right:
  assumes "sorted a"
  shows "sorted (insort_right a x)"
proof -
  let ?r = "bisect_right a x 0 (length a)"
  have b: "?r \<le> length a" using bisect_right_bounds[of 0 "length a" a x] by simp
  have n: "(\<forall>k < ?r. a ! k \<le> x) \<and> (\<forall>k. ?r \<le> k \<and> k < length a \<longrightarrow> x < a ! k)"
    by (rule bisect_right_neighbours) (use assms in auto)
  have 1: "\<forall>y \<in> set (take ?r a). y \<le> x"
    using n b by (auto simp: in_set_conv_nth)
  have 2: "\<forall>y \<in> set (drop ?r a). x \<le> y"
  proof
    fix y assume "y \<in> set (drop ?r a)"
    then obtain k where "k < length a - ?r" "y = a ! (?r + k)"
      by (auto simp: in_set_conv_nth)
    then show "x \<le> y" using n by (simp add: less_imp_le)
  qed
  have 3: "sorted (take ?r a)" "sorted (drop ?r a)"
    using assms by (simp_all add: sorted_wrt_take sorted_wrt_drop)
  have 4: "\<forall>y \<in> set (take ?r a). \<forall>z \<in> set (drop ?r a). y \<le> z"
    using 1 2 by (meson order_trans)
  show ?thesis
    unfolding insort_right_def Let_def using 1 2 3 4
    by (simp add: sorted_append)
qed

section \<open>low_aces: a fresh, sorted copy with the low aces added\<close>

lemma low_aces_loop_length: "length (low_aces_loop cs c st) = length st"
  by (induction cs c st rule: low_aces_loop.induct) auto

lemma low_aces_loop_other: "k \<noteq> c \<Longrightarrow> low_aces_loop cs c st ! k = st ! k"
  by (induction cs c st rule: low_aces_loop.induct) auto

lemma low_aces_loop_sorted:
  "c < length st \<Longrightarrow> sorted (st ! c) \<Longrightarrow> sorted (low_aces_loop cs c st ! c)"
  by (induction cs c st rule: low_aces_loop.induct) (auto simp: sorted_insort_right)

lemma low_aces_loop_mset:
  "c < length st \<Longrightarrow> sorted (rev (map fst cs)) \<Longrightarrow>
   mset (low_aces_loop cs c st ! c) =
   mset (st ! c) + mset (map (\<lambda>c. (0, snd c)) (filter (\<lambda>c. fst c = 14) cs))"
proof (induction cs c st rule: low_aces_loop.induct)
  case (1 c st)
  then show ?case by simp
next
  case (2 i j cs c st)
  have desc: "sorted (rev (map fst cs))" and le: "\<forall>x \<in> set cs. fst x \<le> i"
    using "2.prems"(2) by (auto simp: sorted_append)
  show ?case
  proof (cases "i < 14")
    case True
    then have "filter (\<lambda>c. fst c = 14) ((i, j) # cs) = []"
      using le by (auto simp: filter_empty_conv)
    then show ?thesis using True by (simp add: card_ranks_A)
  next
    case False
    show ?thesis
    proof (cases "i > 14")
      case True
      then show ?thesis using "2.IH"(1) "2.prems"(1) desc by (simp add: card_ranks_A)
    next
      case False
      with \<open>\<not> i < 14\<close> have i: "i = 14" by simp
      have "mset (low_aces_loop cs c (st[c := insort_right (st ! c) (LOW_ACE, j)]) ! c) =
            mset (st[c := insort_right (st ! c) (LOW_ACE, j)] ! c) +
            mset (map (\<lambda>c. (0, snd c)) (filter (\<lambda>c. fst c = 14) cs))"
        using "2.IH"(2) "2.prems"(1) desc i by (simp add: card_ranks_A)
      then show ?thesis using i "2.prems"(1)
        by (simp add: card_ranks_A mset_insort_right LOW_ACE_def)
    qed
  qed
qed

lemma sorted_map_fst: "sorted (h :: (int \<times> int) list) \<Longrightarrow> sorted (map fst h)"
  by (induction h) (auto simp: less_eq_prod_def)

lemma low_aces_frame:
  assumes "hand < length st" and "low_aces st hand = (st', r)"
  shows "r = length st" and "length st' = Suc (length st)"
    and "take (length st) st' = st"
    and "st' ! r = low_aces_loop (rev (st ! hand)) (length st) (st @ [st ! hand]) ! length st"
proof -
  have eq: "st' = low_aces_loop (rev (st ! hand)) (length st) (st @ [st ! hand])"
    and r: "r = length st"
    using assms by (auto simp: low_aces_def deepcopy_def new_list_def nth_append)
  show "r = length st" by (rule r)
  show len: "length st' = Suc (length st)" by (simp add: eq low_aces_loop_length)
  show "take (length st) st' = st"
  proof (rule nth_equalityI)
    show "length (take (length st) st') = length st" using len by simp
  next
    fix k assume "k < length (take (length st) st')"
    then have k: "k < length st" by simp
    then have "st' ! k = (st @ [st ! hand]) ! k"
      unfolding eq by (intro low_aces_loop_other) simp
    with k show "take (length st) st' ! k = st ! k" by (simp add: nth_append)
  qed
  show "st' ! r = low_aces_loop (rev (st ! hand)) (length st) (st @ [st ! hand]) ! length st"
    by (simp add: eq r)
qed

text \<open>
  Claim C9. For a hand sorted as Python sorts tuples, held at a valid reference \<open>hand\<close> of
  the store, \<open>low_aces\<close> returns a reference \<open>r\<close> that did not exist before (the next free
  one), the store grows by exactly that one list and every list that existed before,
  the argument included, is unchanged; the new list is sorted and holds every card of the
  argument plus one card \<open>(0, suit)\<close> for each ace \<open>(14, suit)\<close> of the argument.
\<close>
theorem low_aces_fresh_sorted_copy:
  assumes "hand < length st" and "sorted (st ! hand)" and "low_aces st hand = (st', r)"
  shows "r = length st \<and> length st' = Suc (length st) \<and> take (length st) st' = st \<and>
         sorted (st' ! r) \<and>
         mset (st' ! r) =
           mset (st ! hand) + mset (map (\<lambda>c. (0, snd c)) (filter (\<lambda>c. fst c = 14) (st ! hand)))"
proof -
  note fr = low_aces_frame[OF assms(1) assms(3)]
  let ?st1 = "st @ [st ! hand]"
  have c: "length st < length ?st1" by simp
  have s1: "sorted (?st1 ! length st)" using assms(2) by simp
  have "sorted (low_aces_loop (rev (st ! hand)) (length st) ?st1 ! length st)"
    by (rule low_aces_loop_sorted[OF c s1])
  then have srt: "sorted (st' ! r)" by (simp add: fr(4))
  have desc: "sorted (rev (map fst (rev (st ! hand))))"
    using sorted_map_fst[OF assms(2)] by (simp add: rev_map)
  have "mset (low_aces_loop (rev (st ! hand)) (length st) ?st1 ! length st) =
        mset (?st1 ! length st) +
        mset (map (\<lambda>c. (0, snd c)) (filter (\<lambda>c. fst c = 14) (rev (st ! hand))))"
    by (rule low_aces_loop_mset[OF c desc])
  then have ms: "mset (st' ! r) =
      mset (st ! hand) + mset (map (\<lambda>c. (0, snd c)) (filter (\<lambda>c. fst c = 14) (st ! hand)))"
    by (simp add: fr(4) rev_filter[symmetric] rev_map[symmetric] del: rev_rev_ident)
  show ?thesis using fr(1,2,3) srt ms by simp
qed

theorem low_aces_fresh_sorted_copy_witness:
  "low_aces [[(9, 1), (10, 0), (14, 3)]] 0 =
     ([[(9, 1), (10, 0), (14, 3)], [(0, 3), (9, 1), (10, 0), (14, 3)]], 1) \<and>
   sorted ([(0, 3), (9, 1), (10, 0), (14, 3)] :: hand) \<and>
   mset ([(0, 3), (9, 1), (10, 0), (14, 3)] :: hand) =
     mset ([(9, 1), (10, 0), (14, 3)] :: hand) + mset ([(0, 3)] :: hand)"
proof -
  have e: "low_aces [[(9, 1), (10, 0), (14, 3)]] 0 =
     ([[(9, 1), (10, 0), (14, 3)], [(0, 3), (9, 1), (10, 0), (14, 3)]], 1)"
    by code_simp
  have h: "(0::nat) < length [[(9, 1), (10, 0), (14, 3 :: int)] :: hand]" by simp
  have s: "sorted ([[(9, 1), (10, 0), (14, 3)]] ! 0 :: hand)" by simp
  show ?thesis using low_aces_fresh_sorted_copy[OF h s e] e by simp
qed

section \<open>hand_rank: the order of the detectors\<close>

lemma if_none_assoc: "if_none (if_none a b) c = if_none a (if_none b c)"
  by (simp add: if_none_def split: sum.splits option.splits)

lemma if_none_start: "if_none (Inr None) d = d"
  by (simp add: if_none_def)

lemma first_non_none_Cons: "first_non_none (d # ds) = if_none d (first_non_none ds)"
  by (simp add: if_none_def)

lemma if_none_end: "if_none d (Inr None) = d"
  by (simp add: if_none_def split: sum.splits option.splits)

text \<open>
  Claim C8. \<open>hand_rank\<close> returns the first result that is not \<open>None\<close> among the detectors
  taken in the order straight flush (royal), four of a kind, full house, flush, straight,
  three of a kind, two pair, one pair, high card; the two straight detectors read the
  ace-duplicated hand and the others the scrubbed hand.
\<close>
theorem hand_rank_detector_order:
  "hand_rank hand =
     (case scrub_hand hand of
        Inl e \<Rightarrow> Inl e
      | Inr cs \<Rightarrow>
          first_non_none
            [straight_flush (ace_duplicated cs), of_kind cs 4, Inr (full_house cs), flush cs,
             Inr (straight (ace_duplicated cs)), of_kind cs 3, Inr (two_pair cs), of_kind cs 2,
             Inr (high_card cs)])"
proof (cases "scrub_hand hand")
  case (Inl e)
  then show ?thesis by (simp add: hand_rank_def)
next
  case (Inr cs)
  obtain st2 r where la: "low_aces [cs] 0 = (st2, r)" by (cases "low_aces [cs] 0")
  have fr: "r = 1" "take 1 st2 = [cs]" "length st2 = 2"
    using low_aces_frame(1,2,3)[of 0 "[cs]" st2 r] la by simp_all
  have "st2 ! 0 = take 1 st2 ! 0" by simp
  also have "\<dots> = [cs] ! 0" by (simp only: fr(2))
  finally have h0: "st2 ! 0 = cs" by simp
  have ad: "ace_duplicated cs = st2 ! 1" by (simp add: ace_duplicated_def la fr(1))
  show ?thesis
    unfolding hand_rank_def Inr
    by (simp add: new_list_def la fr(1) h0 ad Let_def if_none_assoc if_none_start
        first_non_none_Cons if_none_end del: first_non_none.simps(2))
qed

section \<open>two_pair on a sorted hand\<close>

lemma two_pair_loop_both:
  "\<forall>c \<in> set cs. fst c \<noteq> r0 \<Longrightarrow>
   two_pair_loop (Some (r0, n0)) (Some (r1, n1)) cs = None \<or>
   (\<exists>t. two_pair_loop (Some (r0, n0)) (Some (r1, n1)) cs = Some (Tup TWO_PAIR t))"
proof (induction cs arbitrary: r1 n1)
  case Nil
  then show ?case by simp
next
  case (Cons c cs)
  obtain i j where c: "c = (i, j)" by (cases c)
  have ne: "r0 \<noteq> i" and rest: "\<forall>c \<in> set cs. fst c \<noteq> r0"
    using Cons.prems c by auto
  show ?case
  proof (cases "r1 = i")
    case False
    then show ?thesis using Cons.IH[OF rest, of i 1] c ne by simp
  next
    case True
    show ?thesis
    proof (cases "n0 = 2 \<and> n1 + 1 = 2")
      case True
      then show ?thesis using c ne \<open>r1 = i\<close> by simp
    next
      case False
      then show ?thesis using Cons.IH[OF rest, of r1 "n1 + 1"] c ne \<open>r1 = i\<close> by auto
    qed
  qed
qed

lemma two_pair_loop_first:
  "sorted (rev (map fst cs)) \<Longrightarrow> \<forall>c \<in> set cs. fst c \<le> r0 \<Longrightarrow>
   two_pair_loop (Some (r0, n0)) None cs = None \<or>
   (\<exists>t. two_pair_loop (Some (r0, n0)) None cs = Some (Tup TWO_PAIR t))"
proof (induction cs arbitrary: n0)
  case Nil
  then show ?case by simp
next
  case (Cons c cs)
  obtain i j where c: "c = (i, j)" by (cases c)
  have desc: "sorted (rev (map fst cs))" and le: "\<forall>x \<in> set cs. fst x \<le> i"
    using Cons.prems c by (auto simp: sorted_append)
  show ?case
  proof (cases "r0 = i")
    case True
    then show ?thesis using Cons.IH[OF desc, of "n0 + 1"] Cons.prems(2) c by simp
  next
    case False
    have "fst x \<noteq> r0" if "x \<in> set cs" for x
    proof -
      have "fst x \<le> i" using le that by simp
      moreover have "i \<le> r0" using Cons.prems(2) c by simp
      ultimately show ?thesis using False by simp
    qed
    then have "\<forall>x \<in> set cs. fst x \<noteq> r0" by simp
    then show ?thesis using two_pair_loop_both[of cs r0 n0 i 1] c False by simp
  qed
qed

lemma sorted_rank_rev: "sorted (map fst hand) \<Longrightarrow> sorted (rev (map fst (rev hand)))"
  by (simp add: rev_map)

text \<open>
  Claim C10. On a hand sorted ascending by rank, \<open>two_pair\<close> returns \<open>None\<close> or a tuple
  whose category is \<open>TWO_PAIR\<close>: the branch that returns category \<open>FULL_H\<close> is never
  taken, because once the second streak exists every remaining card ranks below the first
  streak's rank.
\<close>
theorem two_pair_category:
  assumes "sorted (map fst hand)"
  shows "two_pair hand = None \<or> (\<exists>t. two_pair hand = Some (Tup TWO_PAIR t))"
proof (cases "rev hand")
  case Nil
  then show ?thesis by (simp add: two_pair_def)
next
  case (Cons c cs)
  obtain i j where c: "c = (i, j)" by (cases c)
  have "sorted (rev (map fst (c # cs)))"
    using sorted_rank_rev[OF assms] Cons by simp
  then have desc: "sorted (rev (map fst cs))" and le: "\<forall>x \<in> set cs. fst x \<le> i"
    using c by (auto simp: sorted_append)
  show ?thesis
    using two_pair_loop_first[OF desc le, of 1] Cons c by (simp add: two_pair_def)
qed

theorem two_pair_category_witness:
  "sorted (map fst [(5, 1), (5, 2), (6, 1), (9, 0), (9, 3 :: int)] :: int list) \<and>
   two_pair [(5, 1), (5, 2), (6, 1), (9, 0), (9, 3)] = Some (Tup TWO_PAIR 9)"
proof -
  have s: "sorted (map fst [(5, 1), (5, 2), (6, 1), (9, 0), (9, 3 :: int)] :: int list)" by simp
  have "two_pair [(5, 1), (5, 2), (6, 1), (9, 0), (9, 3)] \<noteq> None"
    by (simp add: two_pair_def)
  moreover have "two_pair [(5, 1), (5, 2), (6, 1), (9, 0), (9, 3)] = Some (Tup TWO_PAIR t)
     \<Longrightarrow> t = 9" for t
    by (simp add: two_pair_def)
  ultimately show ?thesis using two_pair_category[OF s] s by auto
qed

section \<open>full_house: which rank is the tiebreak\<close>

lemma rank_count_append: "rank_count (xs @ ys) r = rank_count xs r + rank_count ys r"
  by (simp add: rank_count_def)

lemma rank_count_single: "rank_count [c] r = (if fst c = r then 1 else 0)"
  by (simp add: rank_count_def)

lemma rank_count_Cons: "rank_count (c # cs) r = (if fst c = r then 1 else 0) + rank_count cs r"
  by (simp add: rank_count_def)

lemma rank_count_rev: "rank_count (rev xs) r = rank_count xs r"
  by (simp add: rank_count_def rev_filter[symmetric])

lemma rank_count_none: "\<forall>c \<in> set xs. fst c \<noteq> r \<Longrightarrow> rank_count xs r = 0"
  by (simp add: rank_count_def filter_empty_conv)

lemma full_house_loop_both:
  assumes "full_house_loop (Some (r0, n0)) (Some (r1, n1)) cs = Some r"
    and "sorted (rev (map fst cs))" and "\<forall>c \<in> set cs. fst c \<le> r1" and "r1 < r0"
    and "n0 = int (rank_count pre r0)" and "n1 = int (rank_count pre r1)"
    and "\<forall>c \<in> set pre. r1 \<le> fst c"
  shows "\<exists>a b. r = Tup FULL_H a \<and> full_house_pattern (pre @ cs) a b"
  using assms
proof (induction cs arbitrary: pre r0 n0 r1 n1)
  case Nil
  then show ?case by simp
next
  case (Cons c cs)
  obtain i j where c: "c = (i, j)" by (cases c)
  have desc: "sorted (rev (map fst cs))" and le: "\<forall>x \<in> set cs. fst x \<le> i"
    using Cons.prems(2) c by (auto simp: sorted_append)
  have i: "i \<le> r1" "r0 \<noteq> i" using Cons.prems(3,4) c by auto
  have app: "(pre @ [c]) @ cs = pre @ c # cs" by simp
  show ?case
  proof (cases "r1 = i")
    case False
    then have lt: "i < r1" using i by simp
    have run: "full_house_loop (Some (r1, n1)) (Some (i, 1)) cs = Some r"
      using Cons.prems(1) c i False by simp
    have "rank_count pre i = 0"
      using Cons.prems(7) lt by (intro rank_count_none) auto
    then have n1': "(1::int) = int (rank_count (pre @ [c]) i)"
      by (simp add: rank_count_append rank_count_single c)
    have n0': "n1 = int (rank_count (pre @ [c]) r1)"
      using Cons.prems(6) False by (simp add: rank_count_append rank_count_single c)
    have pre': "\<forall>x \<in> set (pre @ [c]). i \<le> fst x"
      using Cons.prems(7) lt c by auto
    show ?thesis
      using Cons.IH[OF run desc le lt n0' n1' pre'] by (simp only: app)
  next
    case True
    have zero: "rank_count (c # cs) r0 = 0"
      using le i Cons.prems(4) c True by (intro rank_count_none) auto
    have cnt0: "rank_count (pre @ c # cs) r0 = nat n0"
      using zero Cons.prems(5) by (simp add: rank_count_append)
    have cnt1: "nat (n1 + 1) \<le> rank_count (pre @ c # cs) r1"
      using Cons.prems(6) True c by (simp add: rank_count_append rank_count_Cons)
    show ?thesis
    proof (cases "(n0 = 2 \<and> n1 + 1 = 3) \<or> (n0 = 3 \<and> n1 + 1 = 2)")
      case True
      then have "r = Tup FULL_H r0"
        using Cons.prems(1) c i \<open>r1 = i\<close> by auto
      moreover have "full_house_pattern (pre @ c # cs) r0 r1"
        using True cnt0 cnt1 Cons.prems(4) by (auto simp: full_house_pattern_def)
      ultimately show ?thesis by blast
    next
      case False
      then have run: "full_house_loop (Some (r0, n0)) (Some (r1, n1 + 1)) cs = Some r"
        using Cons.prems(1) c i \<open>r1 = i\<close> by auto
      have le': "\<forall>x \<in> set cs. fst x \<le> r1" using le True by simp
      have n0': "n0 = int (rank_count (pre @ [c]) r0)"
        using Cons.prems(5) i by (simp add: rank_count_append rank_count_single c)
      have n1': "n1 + 1 = int (rank_count (pre @ [c]) r1)"
        using Cons.prems(6) True by (simp add: rank_count_append rank_count_single c)
      have pre': "\<forall>x \<in> set (pre @ [c]). r1 \<le> fst x"
        using Cons.prems(7) True c by auto
      show ?thesis
        using Cons.IH[OF run desc le' Cons.prems(4) n0' n1' pre'] by (simp only: app)
    qed
  qed
qed

lemma full_house_loop_first:
  assumes "full_house_loop (Some (r0, n0)) None cs = Some r"
    and "sorted (rev (map fst cs))" and "\<forall>c \<in> set cs. fst c \<le> r0"
    and "n0 = int (rank_count pre r0)" and "\<forall>c \<in> set pre. fst c = r0"
  shows "\<exists>a b. r = Tup FULL_H a \<and> full_house_pattern (pre @ cs) a b"
  using assms
proof (induction cs arbitrary: pre n0)
  case Nil
  then show ?case by simp
next
  case (Cons c cs)
  obtain i j where c: "c = (i, j)" by (cases c)
  have desc: "sorted (rev (map fst cs))" and le: "\<forall>x \<in> set cs. fst x \<le> i"
    using Cons.prems(2) c by (auto simp: sorted_append)
  have i: "i \<le> r0" using Cons.prems(3) c by auto
  have app: "(pre @ [c]) @ cs = pre @ c # cs" by simp
  show ?case
  proof (cases "r0 = i")
    case True
    have run: "full_house_loop (Some (r0, n0 + 1)) None cs = Some r"
      using Cons.prems(1) c True by simp
    have le': "\<forall>x \<in> set cs. fst x \<le> r0" using le True by simp
    have n0': "n0 + 1 = int (rank_count (pre @ [c]) r0)"
      using Cons.prems(4) True by (simp add: rank_count_append rank_count_single c)
    have pre': "\<forall>x \<in> set (pre @ [c]). fst x = r0"
      using Cons.prems(5) True c by auto
    show ?thesis using Cons.IH[OF run desc le' n0' pre'] by (simp only: app)
  next
    case False
    then have lt: "i < r0" using i by simp
    have run: "full_house_loop (Some (r0, n0)) (Some (i, 1)) cs = Some r"
      using Cons.prems(1) c False by simp
    have n0': "n0 = int (rank_count (pre @ [c]) r0)"
      using Cons.prems(4) False by (simp add: rank_count_append rank_count_single c)
    have "rank_count pre i = 0"
      using Cons.prems(5) False by (intro rank_count_none) auto
    then have n1': "(1::int) = int (rank_count (pre @ [c]) i)"
      by (simp add: rank_count_append rank_count_single c)
    have pre': "\<forall>x \<in> set (pre @ [c]). i \<le> fst x"
      using Cons.prems(5) lt c by auto
    show ?thesis
      using full_house_loop_both[OF run desc le lt n0' n1' pre'] by (simp only: app)
  qed
qed

text \<open>
  Claim C3, as the code has it. Whenever \<open>full_house\<close> classifies a hand sorted ascending
  by rank, the result is \<open>(FULL_H, a)\<close> where \<open>a\<close> is the higher of two ranks \<open>b < a\<close> of
  the hand, \<open>a\<close> occurring exactly three times and \<open>b\<close> at least twice, or \<open>a\<close> exactly
  twice and \<open>b\<close> at least three times. The tiebreak is the rank of the streak met first in
  the descending scan: the triple's rank only when the triple outranks the pair.
\<close>
theorem full_house_tiebreak_higher_rank:
  assumes "sorted (map fst hand)" and "full_house hand = Some r"
  shows "\<exists>a b. r = Tup FULL_H a \<and> full_house_pattern hand a b"
proof (cases "rev hand")
  case Nil
  then show ?thesis using assms(2) by (simp add: full_house_def)
next
  case (Cons c cs)
  obtain i j where c: "c = (i, j)" by (cases c)
  have "sorted (rev (map fst (c # cs)))"
    using sorted_rank_rev[OF assms(1)] Cons by simp
  then have desc: "sorted (rev (map fst cs))" and le: "\<forall>x \<in> set cs. fst x \<le> i"
    using c by (auto simp: sorted_append)
  have run: "full_house_loop (Some (i, 1)) None cs = Some r"
    using assms(2) Cons c by (simp add: full_house_def)
  have n: "(1::int) = int (rank_count [c] i)" by (simp add: rank_count_single c)
  have pre: "\<forall>x \<in> set [c]. fst x = i" by (simp add: c)
  obtain a b where ab: "r = Tup FULL_H a" "full_house_pattern ([c] @ cs) a b"
    using full_house_loop_first[OF run desc le n pre] by blast
  have "rank_count ([c] @ cs) x = rank_count hand x" for x
    using rank_count_rev[of "rev hand" x] Cons by simp
  then have "full_house_pattern hand a b"
    using ab(2) by (simp add: full_house_pattern_def)
  with ab(1) show ?thesis by blast
qed

text \<open>
  Claim C3 as stated fails on K K 7 7 7: the hand is classified as a full house with
  tiebreak 13, the rank that occurs twice, not 7, the rank that occurs three times.
\<close>

theorem full_house_pair_rank_counterexample:
  "hand_rank [''KC'', ''KD'', ''7C'', ''7D'', ''7H''] = Inr (Some (Tup FULL_H 13)) \<and>
   scrub_hand [''KC'', ''KD'', ''7C'', ''7D'', ''7H''] =
     Inr [(7, 0), (7, 2), (7, 3), (13, 0), (13, 2)] \<and>
   full_house [(7, 0), (7, 2), (7, 3), (13, 0), (13, 2)] = Some (Tup FULL_H 13) \<and>
   rank_count [(7, 0), (7, 2), (7, 3), (13, 0), (13, 2)] 13 = 2 \<and>
   rank_count [(7, 0), (7, 2), (7, 3), (13, 0), (13, 2)] 7 = 3"
  by code_simp

text \<open>The theorem of claim C3 at K K 7 7 7.\<close>

theorem full_house_tiebreak_higher_rank_witness:
  "sorted (map fst ([(7, 0), (7, 2), (7, 3), (13, 0), (13, 2)] :: hand)) \<and>
   full_house [(7, 0), (7, 2), (7, 3), (13, 0), (13, 2)] = Some (Tup FULL_H 13) \<and>
   (\<exists>b. full_house_pattern [(7, 0), (7, 2), (7, 3), (13, 0), (13, 2)] 13 b)"
proof -
  have s: "sorted (map fst ([(7, 0), (7, 2), (7, 3), (13, 0), (13, 2)] :: hand))" by simp
  have f: "full_house [(7, 0), (7, 2), (7, 3), (13, 0), (13, 2)] = Some (Tup FULL_H 13)"
    by (simp add: full_house_def)
  show ?thesis using full_house_tiebreak_higher_rank[OF s f] s f by simp
qed

section \<open>hand_rank on four hands\<close>

text \<open>
  Claim C1. The wheel A 2 3 4 5: the low ace is inserted with rank \<open>LOW_ACE = 0\<close>, so in the
  ace-duplicated hand the run 5 4 3 2 is followed by 0, not 1, and \<open>straight\<close> returns
  \<open>None\<close>; \<open>hand_rank\<close> falls through to \<open>high_card\<close> and returns \<open>(HIGH_CARD, 2)\<close>, not
  a straight with tiebreak 5.
\<close>

theorem wheel_not_a_straight:
  "hand_rank [''AS'', ''2S'', ''3S'', ''4S'', ''5C''] = Inr (Some (Tup HIGH_CARD 2)) \<and>
   scrub_hand [''AS'', ''2S'', ''3S'', ''4S'', ''5C''] =
     Inr [(2, 1), (3, 1), (4, 1), (5, 0), (14, 1)] \<and>
   ace_duplicated [(2, 1), (3, 1), (4, 1), (5, 0), (14, 1)] =
     [(0, 1), (2, 1), (3, 1), (4, 1), (5, 0), (14, 1)] \<and>
   straight [(0, 1), (2, 1), (3, 1), (4, 1), (5, 0), (14, 1)] = None"
  by code_simp

text \<open>
  Claim C2. For the royal flush in hearts \<open>hand_rank\<close> returns the bare integer \<open>ROYAL_FL\<close>,
  not a pair \<open>(category, tiebreak)\<close>; comparing it with the tuple of another hand in
  \<open>poker\<close> raises \<open>TypeError\<close>.
\<close>

theorem royal_flush_bare_integer:
  "hand_rank [''AH'', ''KH'', ''QH'', ''JH'', ''TH''] = Inr (Some (Bare ROYAL_FL)) \<and>
   poker [[''AH'', ''KH'', ''QH'', ''JH'', ''TH''], [''9D'', ''9H'', ''9S'', ''9C'', ''7D'']] =
     Inl TypeError"
  by code_simp

text \<open>On a hand sorted ascending by rank, \<open>high_card\<close> returns the lowest rank.\<close>

lemma high_card_returns_minimum:
  assumes "sorted (map fst hand)" and "hand \<noteq> []"
  shows "high_card hand = Some (Tup HIGH_CARD (Min (fst ` set hand)))"
proof -
  obtain i j cs where h: "hand = (i, j) # cs" using assms(2) by (cases hand) auto
  have "\<forall>x \<in> set cs. i \<le> fst x" using assms(1) h by auto
  then have "Min (fst ` set hand) = i"
    unfolding h by (intro Min_eqI) auto
  then show ?thesis by (simp add: high_card_def h HIGH_CARD_def)
qed

text \<open>
  Claim C4. For 2 3 4 6 7 of mixed suits \<open>high_card\<close> reads \<open>hand[0]\<close> of the ascending
  hand and so returns the lowest rank: \<open>(HIGH_CARD, 2)\<close>, not the highest rank 7.
\<close>

theorem high_card_lowest_rank:
  "hand_rank [''2S'', ''3S'', ''4S'', ''6C'', ''7D''] = Inr (Some (Tup HIGH_CARD 2)) \<and>
   scrub_hand [''2S'', ''3S'', ''4S'', ''6C'', ''7D''] =
     Inr [(2, 1), (3, 1), (4, 1), (6, 0), (7, 2)] \<and>
   high_card [(2, 1), (3, 1), (4, 1), (6, 0), (7, 2)] = Some (Tup HIGH_CARD 2)"
  by code_simp

text \<open>
  \<open>two_pair\<close> never rebinds its first streak: when the highest rank of the hand occurs
  once, the detector returns \<open>None\<close> whatever pairs follow.
\<close>

lemma two_pair_loop_first_not_pair:
  "n0 \<noteq> 2 \<Longrightarrow> \<forall>c \<in> set cs. fst c \<noteq> r0 \<Longrightarrow> two_pair_loop (Some (r0, n0)) s1 cs = None"
proof (induction cs arbitrary: s1)
  case Nil
  then show ?case by simp
next
  case (Cons c cs)
  obtain i j where c: "c = (i, j)" by (cases c)
  have ne: "r0 \<noteq> i" and rest: "\<forall>c \<in> set cs. fst c \<noteq> r0"
    using Cons.prems(2) c by auto
  show ?case
    using Cons.IH[OF Cons.prems(1) rest] c ne Cons.prems(1)
    by (cases s1) (auto split: prod.splits)
qed

lemma two_pair_none_when_top_rank_single:
  assumes "rev hand = (i, j) # cs" and "\<forall>c \<in> set cs. fst c \<noteq> i"
  shows "two_pair hand = None"
  using assms two_pair_loop_first_not_pair[of 1 cs i None]
  by (simp add: two_pair_def)

text \<open>
  Claim C5. For K 9 9 5 5 the first streak of \<open>two_pair\<close> stays on the king with count 1,
  so the detector returns \<open>None\<close> although nines and fives are both paired, and
  \<open>hand_rank\<close> returns \<open>(ONE_PAIR, 9)\<close>.
\<close>

theorem two_pair_missed_below_kicker:
  "scrub_hand [''KS'', ''9H'', ''9C'', ''5S'', ''5D''] =
     Inr [(5, 1), (5, 2), (9, 0), (9, 3), (13, 1)] \<and>
   two_pair [(5, 1), (5, 2), (9, 0), (9, 3), (13, 1)] = None \<and>
   hand_rank [''KS'', ''9H'', ''9C'', ''5S'', ''5D''] = Inr (Some (Tup ONE_PAIR 9))"
  by code_simp

section \<open>scrub_hand: when parsing fails\<close>

lemma dom_card_ranks:
  "dom card_ranks =
     {''A'', ''K'', ''Q'', ''J'', ''T'', ''9'', ''8'', ''7'', ''6'', ''5'', ''4'', ''3'', ''2'', ''1''}"
  by (auto simp: card_ranks_def dom_map_of_conv_image_fst)

lemma dom_suits: "dom suits = {''C'', ''S'', ''D'', ''H''}"
  by (auto simp: suits_def dom_map_of_conv_image_fst)

lemma scrub_card_error_iff:
  "(\<exists>e. scrub_card x = Inl e) \<longleftrightarrow> butlast x \<notin> dom card_ranks \<or> [last x] \<notin> dom suits"
proof (cases "x = []")
  case True
  then show ?thesis by (simp add: scrub_card_def card_ranks_def)
next
  case False
  then show ?thesis
    by (auto simp: scrub_card_def dom_def split: option.splits)
qed

lemma scrub_card_error_KeyError: "scrub_card x = Inl e \<Longrightarrow> e = KeyError"
proof (cases "x = []")
  case True
  assume "scrub_card x = Inl e"
  with True show ?thesis by (simp add: scrub_card_def card_ranks_def)
next
  case False
  assume "scrub_card x = Inl e"
  with False show ?thesis
    by (auto simp: scrub_card_def split: option.splits)
qed

lemma scrub_gen_error_iff:
  "(\<exists>e. scrub_gen hand = Inl e) \<longleftrightarrow> (\<exists>x \<in> set hand. \<exists>e. scrub_card x = Inl e)"
  by (induction hand) (auto split: sum.splits)

lemma scrub_gen_error_KeyError: "scrub_gen hand = Inl e \<Longrightarrow> e = KeyError"
  by (induction hand arbitrary: e) (auto split: sum.splits dest: scrub_card_error_KeyError)

lemma scrub_gen_map:
  "\<forall>x \<in> set hand. scrub_card x = Inr (f x) \<Longrightarrow> scrub_gen hand = Inr (map f hand)"
  by (induction hand) auto

lemma scrub_card_value:
  "card_ranks (butlast x) = Some r \<Longrightarrow> x \<noteq> [] \<Longrightarrow> suits [last x] = Some s \<Longrightarrow>
   scrub_card x = Inr (r, s)"
  by (simp add: scrub_card_def)

text \<open>
  Claim C6, as the code has it. \<open>scrub_hand\<close> raises an exception exactly when some token's
  rank part (the token without its last character) is not one of the keys
  \<open>1 2 3 4 5 6 7 8 9 T J Q K A\<close> of \<open>card_ranks\<close> or its last character is not one of
  \<open>C S D H\<close>; the exception is always \<open>KeyError\<close>; and when every token has both parts
  in the tables, the result is the sorted list of the corresponding \<open>(rank, suit)\<close> cards.
\<close>
theorem scrub_hand_fails_iff:
  "((\<exists>e. scrub_hand hand = Inl e) \<longleftrightarrow>
      (\<exists>x \<in> set hand.
         butlast x \<notin> {''A'', ''K'', ''Q'', ''J'', ''T'', ''9'', ''8'', ''7'', ''6'',
                       ''5'', ''4'', ''3'', ''2'', ''1''} \<or>
         [last x] \<notin> {''C'', ''S'', ''D'', ''H''})) \<and>
   (\<forall>e. scrub_hand hand = Inl e \<longrightarrow> e = KeyError) \<and>
   ((\<forall>x \<in> set hand.
       card_ranks (butlast x) = Some (r x) \<and> x \<noteq> [] \<and> suits [last x] = Some (s x)) \<longrightarrow>
    scrub_hand hand = Inr (sort (map (\<lambda>x. (r x, s x)) hand)))"
proof (intro conjI allI impI)
  have "(\<exists>e. scrub_hand hand = Inl e) \<longleftrightarrow> (\<exists>e. scrub_gen hand = Inl e)"
    by (auto simp: scrub_hand_def split: sum.splits)
  also have "\<dots> \<longleftrightarrow> (\<exists>x \<in> set hand. butlast x \<notin> dom card_ranks \<or> [last x] \<notin> dom suits)"
    by (simp add: scrub_gen_error_iff scrub_card_error_iff)
  finally show "(\<exists>e. scrub_hand hand = Inl e) \<longleftrightarrow>
      (\<exists>x \<in> set hand.
         butlast x \<notin> {''A'', ''K'', ''Q'', ''J'', ''T'', ''9'', ''8'', ''7'', ''6'',
                       ''5'', ''4'', ''3'', ''2'', ''1''} \<or>
         [last x] \<notin> {''C'', ''S'', ''D'', ''H''})"
    by (simp only: dom_card_ranks dom_suits)
next
  fix e assume "scrub_hand hand = Inl e"
  then have "scrub_gen hand = Inl e" by (auto simp: scrub_hand_def split: sum.splits)
  then show "e = KeyError" by (rule scrub_gen_error_KeyError)
next
  assume a: "\<forall>x \<in> set hand.
       card_ranks (butlast x) = Some (r x) \<and> x \<noteq> [] \<and> suits [last x] = Some (s x)"
  have "scrub_gen hand = Inr (map (\<lambda>x. (r x, s x)) hand)"
    by (rule scrub_gen_map) (use a in \<open>auto intro: scrub_card_value\<close>)
  then show "scrub_hand hand = Inr (sort (map (\<lambda>x. (r x, s x)) hand))"
    by (simp add: scrub_hand_def)
qed

text \<open>
  Claim C6 as stated fails on the token \<open>1S\<close>: its rank character \<open>1\<close> is outside
  \<open>2\<close> to \<open>9\<close>, \<open>T\<close>, \<open>J\<close>, \<open>Q\<close>, \<open>K\<close>, \<open>A\<close>, yet \<open>card_ranks\<close> has the key \<open>1\<close> and
  parsing succeeds.
\<close>

theorem scrub_hand_rank_one_counterexample:
  "scrub_hand [''1S''] = Inr [(1, 1)] \<and>
   butlast ''1S'' = ''1'' \<and>
   ''1'' \<notin> {''A'', ''K'', ''Q'', ''J'', ''T'', ''9'', ''8'', ''7'', ''6'', ''5'', ''4'', ''3'', ''2''}"
  by (simp add: scrub_hand_def scrub_card_def card_ranks_def suits_def)

text \<open>The theorem of claim C6 at a hand that parses and at one that does not.\<close>

theorem scrub_hand_fails_iff_witness:
  "scrub_hand [''TS'', ''1H'', ''AC''] = Inr [(1, 3), (10, 1), (14, 0)] \<and>
   (\<exists>e. scrub_hand [''TS'', ''10H''] = Inl e)"
proof -
  let ?r = "\<lambda>x. the (card_ranks (butlast x))" and ?s = "\<lambda>x. the (suits [last x])"
  have 1: "\<forall>x \<in> set [''TS'', ''1H'', ''AC''].
       card_ranks (butlast x) = Some (?r x) \<and> x \<noteq> [] \<and> suits [last x] = Some (?s x)"
    by (simp add: card_ranks_def suits_def)
  have "scrub_hand [''TS'', ''1H'', ''AC''] =
        Inr (sort (map (\<lambda>x. (?r x, ?s x)) [''TS'', ''1H'', ''AC'']))"
    using scrub_hand_fails_iff[of "[''TS'', ''1H'', ''AC'']" ?r ?s] 1 by blast
  then have a: "scrub_hand [''TS'', ''1H'', ''AC''] = Inr [(1, 3), (10, 1), (14, 0)]"
    by (simp add: card_ranks_def suits_def)
  have b: "\<exists>e. scrub_hand [''TS'', ''10H''] = Inl e"
    using scrub_hand_fails_iff[of "[''TS'', ''10H'']" ?r ?s] by simp
  show ?thesis using a b by simp
qed

section \<open>poker: the first hand of maximal rank\<close>

lemma first_max_split:
  assumes "\<forall>x \<in> set pre. key x < key h" and "\<forall>x \<in> set post. key x \<le> key h"
  shows "first_max key (pre @ h # post) = h"
proof -
  have "Max (key ` set (pre @ h # post)) = key h"
    using assms by (intro Max_eqI) (auto intro: less_imp_le)
  moreover have "filter (\<lambda>x. key x = key h) pre = []"
    using assms(1) by (auto simp: filter_empty_conv)
  ultimately show ?thesis by (simp add: first_max_def)
qed

lemma max_loop_split:
  assumes "\<forall>h \<in> set items. hand_rank h = Inr (Some (Tup (fst (key h)) (snd (key h))))"
  shows "\<exists>h pre post.
           max_loop maxitem (Some (Tup (fst (key maxitem)) (snd (key maxitem)))) items = Inr h \<and>
           maxitem # items = pre @ h # post \<and>
           (\<forall>x \<in> set pre. key x < key h) \<and> (\<forall>x \<in> set post. key x \<le> key h)"
  using assms
proof (induction items arbitrary: maxitem)
  case Nil
  have "[maxitem] = [] @ maxitem # []" by simp
  then show ?case by fastforce
next
  case (Cons item items)
  have rk: "hand_rank item = Inr (Some (Tup (fst (key item)) (snd (key item))))"
    and rest: "\<forall>h \<in> set items. hand_rank h = Inr (Some (Tup (fst (key h)) (snd (key h))))"
    using Cons.prems by simp_all
  show ?case
  proof (cases "key item > key maxitem")
    case True
    obtain h pre post where
      run: "max_loop item (Some (Tup (fst (key item)) (snd (key item)))) items = Inr h"
      and sp: "item # items = pre @ h # post"
      and lt: "\<forall>x \<in> set pre. key x < key h" and le: "\<forall>x \<in> set post. key x \<le> key h"
      using Cons.IH[OF rest, of item] by blast
    have "key item \<le> key h"
    proof (cases pre)
      case Nil
      then show ?thesis using sp by simp
    next
      case (Cons p ps)
      then have "item \<in> set pre" using sp by simp
      then show ?thesis using lt by (auto intro: less_imp_le)
    qed
    then have m: "key maxitem < key h" using True by simp
    have 1: "max_loop maxitem (Some (Tup (fst (key maxitem)) (snd (key maxitem)))) (item # items)
             = Inr h"
      using rk True run by simp
    have 2: "maxitem # item # items = (maxitem # pre) @ h # post" using sp by simp
    have 3: "\<forall>x \<in> set (maxitem # pre). key x < key h" using lt m by simp
    show ?thesis using 1 2 3 le by blast
  next
    case False
    then have ile: "key item \<le> key maxitem" by simp
    obtain h pre post where
      run: "max_loop maxitem (Some (Tup (fst (key maxitem)) (snd (key maxitem)))) items = Inr h"
      and sp: "maxitem # items = pre @ h # post"
      and lt: "\<forall>x \<in> set pre. key x < key h" and le: "\<forall>x \<in> set post. key x \<le> key h"
      using Cons.IH[OF rest, of maxitem] by blast
    have 1: "max_loop maxitem (Some (Tup (fst (key maxitem)) (snd (key maxitem)))) (item # items)
             = Inr h"
      using rk False run by simp
    show ?thesis
    proof (cases pre)
      case Nil
      then have h: "h = maxitem" "post = items" using sp by simp_all
      have 2: "maxitem # item # items = [] @ h # (item # items)" using h by simp
      have 3: "\<forall>x \<in> set (item # items). key x \<le> key h" using le h ile by simp
      have 4: "\<forall>x \<in> set ([] :: string list list). key x < key h" by simp
      show ?thesis using 1 2 3 4 by blast
    next
      case (Cons p ps)
      then have p: "p = maxitem" "items = ps @ h # post" using sp by simp_all
      have m: "key maxitem < key h" using lt Cons p by simp
      have 2: "maxitem # item # items = (maxitem # item # ps) @ h # post" using p by simp
      have 3: "\<forall>x \<in> set (maxitem # item # ps). key x < key h"
        using lt Cons p m ile by auto
      show ?thesis using 1 2 3 le by blast
    qed
  qed
qed

text \<open>
  Claim C7, as the code has it. For a non-empty sequence of hands each of which
  \<open>hand_rank\<close> maps to a tuple \<open>(category, tiebreak)\<close>, \<open>key\<close> naming that tuple, \<open>poker\<close>
  returns one hand: the first hand of the sequence whose tuple is the lexicographic
  maximum.
\<close>
theorem poker_first_maximum:
  assumes "hands \<noteq> []"
    and "\<forall>h \<in> set hands. hand_rank h = Inr (Some (Tup (fst (key h)) (snd (key h))))"
  shows "poker hands = Inr (first_max key hands)"
proof -
  obtain item items where hs: "hands = item # items" using assms(1) by (cases hands) auto
  have rk: "hand_rank item = Inr (Some (Tup (fst (key item)) (snd (key item))))"
    and rest: "\<forall>h \<in> set items. hand_rank h = Inr (Some (Tup (fst (key h)) (snd (key h))))"
    using assms(2) hs by simp_all
  obtain h pre post where
    run: "max_loop item (Some (Tup (fst (key item)) (snd (key item)))) items = Inr h"
    and sp: "item # items = pre @ h # post"
    and lt: "\<forall>x \<in> set pre. key x < key h" and le: "\<forall>x \<in> set post. key x \<le> key h"
    using max_loop_split[OF rest, of item] by blast
  have "poker hands = Inr h" using hs rk run by (simp add: poker_def)
  moreover have "first_max key hands = h"
    using first_max_split[OF lt le] sp hs by simp
  ultimately show ?thesis by simp
qed

text \<open>Claim C7 as stated fails on the empty sequence of hands: \<open>max\<close> raises
  \<open>ValueError\<close> and no hand is returned.\<close>

theorem poker_empty_counterexample: "poker [] = Inl ValueError"
  by (simp add: poker_def)

text \<open>The theorem of claim C7 at a full house followed by two tied fours of a kind.\<close>

theorem poker_first_maximum_witness:
  "poker [[''TD'', ''TC'', ''TH'', ''7C'', ''7D''], [''9D'', ''9H'', ''9S'', ''9C'', ''7D''],
          [''9D'', ''9H'', ''9S'', ''9C'', ''8D'']] =
     Inr [''9D'', ''9H'', ''9S'', ''9C'', ''7D'']"
proof -
  let ?fh = "[''TD'', ''TC'', ''TH'', ''7C'', ''7D'']"
  let ?fk = "[''9D'', ''9H'', ''9S'', ''9C'', ''7D'']"
  let ?fk' = "[''9D'', ''9H'', ''9S'', ''9C'', ''8D'']"
  let ?key = "\<lambda>h. if h = ?fh then (6, 10) else (7, 9 :: int) :: int \<times> int"
  have 1: "hand_rank ?fh = Inr (Some (Tup 6 10))" by code_simp
  have 2: "hand_rank ?fk = Inr (Some (Tup 7 9))" by code_simp
  have 3: "hand_rank ?fk' = Inr (Some (Tup 7 9))" by code_simp
  have ne: "[?fh, ?fk, ?fk'] \<noteq> []" by simp
  have all: "\<forall>h \<in> set [?fh, ?fk, ?fk']. hand_rank h = Inr (Some (Tup (fst (?key h)) (snd (?key h))))"
    using 1 2 3 by simp
  have "first_max ?key [?fh, ?fk, ?fk'] = ?fk"
    by (simp add: first_max_def)
  then show ?thesis using poker_first_maximum[OF ne all] by simp
qed

end
